theory Spec2Isabelle
  imports Complex_Main
begin

section \<open>Build-profile statistics: the data model of profile.py\<close>

text \<open>
  The program reads a decoded build profile (a JSON document with a list of trace
  events), groups the events by thread (\<open>get_data\<close>), computes for each thread and
  event name an accumulated self-time (\<open>get_times\<close>) and flattens the result into
  output rows (\<open>create_event_objects\<close>).

  A trace event is a Python dict, which keeps its keys in insertion order: it is the
  list of its items in that order. The six keys that the program reads are typed as the
  input description gives them (\<open>name\<close>, \<open>cat\<close>, \<open>ph\<close> strings, \<open>ts\<close>, \<open>dur\<close>
  integers, \<open>tid\<close> a string or an integer); an item with any other key is \<open>Other\<close>,
  with the key and the text of the value. Python integers are unbounded, hence \<open>int\<close>.
\<close>

datatype thread_id = TidInt int | TidStr string

datatype item =
    Name string
  | Cat string
  | Ph string
  | Ts int
  | Dur int
  | Tid thread_id
  | Other string string

type_synonym event = "item list"

text \<open>
  Reading a key: \<open>None\<close> is the absent key (\<open>"ts" not in event\<close>), \<open>Some v\<close> the value
  of \<open>event["ts"]\<close>.
\<close>

fun name :: "event \<Rightarrow> string option" where
  "name [] = None"
| "name (Name n # rest) = Some n"
| "name (i # rest) = name rest"

fun cat :: "event \<Rightarrow> string option" where
  "cat [] = None"
| "cat (Cat c # rest) = Some c"
| "cat (i # rest) = cat rest"

fun ph :: "event \<Rightarrow> string option" where
  "ph [] = None"
| "ph (Ph p # rest) = Some p"
| "ph (i # rest) = ph rest"

fun ts :: "event \<Rightarrow> int option" where
  "ts [] = None"
| "ts (Ts t # rest) = Some t"
| "ts (i # rest) = ts rest"

fun dur :: "event \<Rightarrow> int option" where
  "dur [] = None"
| "dur (Dur d # rest) = Some d"
| "dur (i # rest) = dur rest"

fun tid :: "event \<Rightarrow> thread_id option" where
  "tid [] = None"
| "tid (Tid a # rest) = Some a"
| "tid (i # rest) = tid rest"

text \<open>
  \<open>str(event)\<close>: the text of a dict shows its items in order, each key with its
  value, so two dicts have the same text exactly when they have the same items in the
  same order. The text is modelled by the list of items that it shows.
\<close>

datatype dict_text = Text "item list"

definition str :: "event \<Rightarrow> dict_text" where
  "str e = Text e"

text \<open>
  The exceptions that the modelled functions raise. \<open>KeyError k\<close> is Python's error
  for reading the absent key \<open>k\<close> of a dict, \<open>OverflowError\<close> the error of \<open>float\<close> on
  an integer too large for a float.
\<close>

datatype error =
    UnableToUnzipFileError
  | MissingTopLevelError
  | IncorrectProfileFormatError
  | KeyError string
  | OverflowError

text \<open>
  A Python dict keeps its keys in insertion order and the program iterates over dicts,
  so a dict is an association list: \<open>map_of\<close> reads a key, \<open>dict_set\<close> is
  \<open>d[k] = v\<close> (an existing key keeps its place, a new key goes to the end).
\<close>

type_synonym ('k, 'v) dict = "('k \<times> 'v) list"

fun dict_set :: "'k \<Rightarrow> 'v \<Rightarrow> ('k, 'v) dict \<Rightarrow> ('k, 'v) dict" where
  "dict_set k v [] = [(k, v)]"
| "dict_set k v (p # ps) = (if fst p = k then (k, v) # ps else p # dict_set k v ps)"

text \<open>
  The decoded document: \<open>otherData\<close> and \<open>traceEvents\<close> are its two top-level keys,
  either of which may be absent.
\<close>

record document =
  otherData :: "(string, string) dict option"
  traceEvents :: "event list option"

type_synonym threads = "(thread_id, event list) dict"
type_synonym categories = "(string, string) dict"
type_synonym event_times = "(string, int) dict"
type_synonym all_threads = "(thread_id, event_times) dict"

section \<open>get_data: grouping the events by thread\<close>

text \<open>
  One iteration of \<open>for line in data["traceEvents"]\<close>. The local dict \<open>cats\<close> maps a
  category to the list of the names seen with it; \<open>line["name"]\<close> is read without a
  check. Then the \<open>tid\<close> check, then the append to the thread's list.
\<close>

definition get_data_line ::
  "event \<Rightarrow> threads \<times> (string, string list) dict \<Rightarrow>
   error + (threads \<times> (string, string list) dict)" where
  "get_data_line line s =
     (case s of (threads, cats) \<Rightarrow>
       (case (case cat line of
                None \<Rightarrow> Inr cats
              | Some c \<Rightarrow>
                  (let cats1 = (if map_of cats c = None then dict_set c [] cats else cats)
                   in case name line of
                        None \<Rightarrow> Inl (KeyError ''name'')
                      | Some n \<Rightarrow>
                          Inr (dict_set c ((case map_of cats1 c of None \<Rightarrow> [] | Some ns \<Rightarrow> ns) @ [n])
                                 cats1)))
        of Inl e \<Rightarrow> Inl e
         | Inr cats' \<Rightarrow>
             (case tid line of
                None \<Rightarrow> Inl IncorrectProfileFormatError
              | Some a \<Rightarrow>
                  (let threads1 = (if map_of threads a = None then dict_set a [] threads else threads)
                   in Inr (dict_set a ((case map_of threads1 a of None \<Rightarrow> [] | Some es \<Rightarrow> es) @ [line])
                             threads1, cats')))))"

fun get_data_lines ::
  "event list \<Rightarrow> threads \<times> (string, string list) dict \<Rightarrow>
   error + (threads \<times> (string, string list) dict)" where
  "get_data_lines [] s = Inr s"
| "get_data_lines (line # rest) s =
     (case get_data_line line s of Inl e \<Rightarrow> Inl e | Inr s' \<Rightarrow> get_data_lines rest s')"

text \<open>
  The body of the outer \<open>try\<close> of \<open>get_data\<close>. Its argument is what downloading,
  unzipping and \<open>json.load\<close> give: \<open>None\<close> when \<open>json.load\<close> raises. The dict \<open>cats\<close>
  is local and is not part of the result \<open>[build_id, threads]\<close>.
\<close>

definition get_data_try :: "document option \<Rightarrow> error + (string \<times> threads)" where
  "get_data_try blob =
     (case blob of
        None \<Rightarrow> Inl IncorrectProfileFormatError
      | Some data \<Rightarrow>
          (case otherData data of
             None \<Rightarrow> Inl MissingTopLevelError
           | Some other \<Rightarrow>
               (case traceEvents data of
                  None \<Rightarrow> Inl MissingTopLevelError
                | Some lines \<Rightarrow>
                    (case map_of other ''build_id'' of
                       None \<Rightarrow> Inl IncorrectProfileFormatError
                     | Some build_id \<Rightarrow>
                         (case get_data_lines lines ([], []) of
                            Inl e \<Rightarrow> Inl e
                          | Inr (threads, cats) \<Rightarrow> Inr (build_id, threads))))))"

text \<open>
  \<open>get_data\<close>: the outer handler \<open>except Exception as exc: raise UnableToUnzipFileError()
  from exc\<close> replaces every exception of the body.
\<close>

definition get_data :: "document option \<Rightarrow> error + (string \<times> threads)" where
  "get_data blob =
     (case get_data_try blob of Inl exc \<Rightarrow> Inl UnableToUnzipFileError | Inr res \<Rightarrow> Inr res)"

section \<open>get_times: the self-time computation\<close>

text \<open>
  The per-thread variables of \<open>get_times\<close>. \<open>seen\<close> is the set of the texts
  \<open>str(curr)\<close> added so far.
\<close>

record thread_state =
  total_time :: int
  all_events :: "event list"
  event_times :: event_times
  seen :: "dict_text set"

definition init_thread_state :: thread_state where
  "init_thread_state = \<lparr>total_time = 0, all_events = [], event_times = [], seen = {}\<rparr>"

text \<open>
  The loop \<open>for i in range(len(all_events) - 1, -1, -1)\<close>, over the reversed list of
  the events processed so far. The condition is a chain of \<open>and\<close>: \<open>curr["dur"]\<close> is
  read only when the three tests before it hold.
\<close>

fun scan ::
  "int \<Rightarrow> int \<Rightarrow> int \<Rightarrow> event list \<Rightarrow> dict_text set \<times> int \<Rightarrow> error + (dict_text set \<times> int)" where
  "scan low high edur [] s = Inr s"
| "scan low high edur (cur # rest) s =
     (case s of (sn, self_time) \<Rightarrow>
       (case ts cur of
          None \<Rightarrow> Inl (KeyError ''ts'')
        | Some cts \<Rightarrow>
            if cts > low \<and> cts < high \<and> str cur \<notin> sn
            then (case dur cur of
                    None \<Rightarrow> Inl (KeyError ''dur'')
                  | Some cdur \<Rightarrow>
                      if cdur < edur
                      then scan low high edur rest (insert (str cur) sn, self_time - cdur)
                      else scan low high edur rest (sn, self_time))
            else scan low high edur rest (sn, self_time)))"

text \<open>
  \<open>self_time = event["dur"]\<close> followed by the block under \<open>if total_time > 0\<close>, for an
  event with timestamp \<open>t\<close> and duration \<open>d\<close>: the new \<open>seen\<close> and the self-time.
\<close>

definition overlap :: "thread_state \<Rightarrow> int \<Rightarrow> int \<Rightarrow> error + (dict_text set \<times> int)" where
  "overlap st t d =
     (if total_time st > 0
      then scan t (t + d) d (rev (all_events st)) (seen st, d)
      else Inr (seen st, d))"

text \<open>
  The body of \<open>for event in threads[thread]\<close>. In
  \<open>categories[event["name"]] = event["cat"]\<close> Python evaluates the right-hand side
  first. The check \<open>"name" not in event\<close> comes after that read.
\<close>

definition process_event ::
  "event \<Rightarrow> thread_state \<times> categories \<Rightarrow> error + (thread_state \<times> categories)" where
  "process_event ev s =
     (case s of (st, cats) \<Rightarrow>
       (case ph ev of
          None \<Rightarrow> Inl IncorrectProfileFormatError
        | Some p \<Rightarrow>
            if p \<noteq> ''X'' then Inr (st, cats)
            else
              (case ts ev of
                 None \<Rightarrow> Inl IncorrectProfileFormatError
               | Some t \<Rightarrow>
                   (case dur ev of
                      None \<Rightarrow> Inl IncorrectProfileFormatError
                    | Some d \<Rightarrow>
                        (case cat ev of
                           None \<Rightarrow> Inl (KeyError ''cat'')
                         | Some c \<Rightarrow>
                             (case name ev of
                                None \<Rightarrow> Inl (KeyError ''name'')
                              | Some n \<Rightarrow>
                                  (case overlap st t d of
                                     Inl e \<Rightarrow> Inl e
                                   | Inr (sn, self_time) \<Rightarrow>
                                       (case name ev of
                                          None \<Rightarrow> Inl IncorrectProfileFormatError
                                        | Some event_type \<Rightarrow>
                                            Inr (\<lparr>total_time = total_time st + self_time,
                                                  all_events = all_events st @ [ev],
                                                  event_times =
                                                    dict_set event_type
                                                      ((case map_of (event_times st) event_type of
                                                          None \<Rightarrow> 0 | Some v \<Rightarrow> v) + self_time)
                                                      (event_times st),
                                                  seen = sn\<rparr>,
                                                 dict_set n c cats)))))))))"

fun thread_loop ::
  "event list \<Rightarrow> thread_state \<times> categories \<Rightarrow> error + (thread_state \<times> categories)" where
  "thread_loop [] s = Inr s"
| "thread_loop (ev # rest) s =
     (case process_event ev s of Inl e \<Rightarrow> Inl e | Inr s' \<Rightarrow> thread_loop rest s')"

text \<open>
  The loop \<open>for thread in threads\<close>, over the items of the dict in insertion order;
  \<open>categories\<close> is shared by all threads.
\<close>

fun threads_loop ::
  "threads \<Rightarrow> all_threads \<times> categories \<Rightarrow> error + (all_threads \<times> categories)" where
  "threads_loop [] s = Inr s"
| "threads_loop (item # rest) s =
     (case s of (all, cats) \<Rightarrow>
       (case thread_loop (snd item) (init_thread_state, cats) of
          Inl e \<Rightarrow> Inl e
        | Inr (st, cats') \<Rightarrow> threads_loop rest (dict_set (fst item) (event_times st) all, cats')))"

definition get_times :: "threads \<Rightarrow> error + (all_threads \<times> categories)" where
  "get_times threads = threads_loop threads ([], [])"

section \<open>create_event_objects: the output rows\<close>

text \<open>
  Python's floats are IEEE 754 doubles: 53 significant bits, results rounded to the
  nearest double, ties to the even significand. A double is written \<open>m * 2 ^ u\<close> with
  an integer \<open>m\<close> of at most 53 bits.

  \<open>bit_length n\<close> is the number of binary digits of \<open>n\<close>; \<open>binade p q\<close> is the
  integer \<open>k\<close> with \<open>2 ^ k \<le> p / q < 2 ^ (k + 1)\<close>, for positive \<open>p\<close> and \<open>q\<close>;
  \<open>round_half_even p q\<close> is the integer nearest to \<open>p / q\<close>, the even one of two
  equally near; \<open>round53 p q\<close> is the double nearest to \<open>p / q\<close>, as \<open>(m, u)\<close>. The
  quotients rounded below are 0 or at least one millionth in magnitude, so no
  subnormal double arises.
\<close>

fun bit_length :: "nat \<Rightarrow> nat" where
  "bit_length n = (if n = 0 then 0 else Suc (bit_length (n div 2)))"

declare bit_length.simps [simp del]

definition binade :: "nat \<Rightarrow> nat \<Rightarrow> int" where
  "binade p q =
     (let d = int (bit_length p) - int (bit_length q)
      in if q * 2 ^ nat d \<le> p * 2 ^ nat (- d) then d else d - 1)"

definition round_half_even :: "int \<Rightarrow> int \<Rightarrow> int" where
  "round_half_even p q =
     (let f = p div q; r = p mod q
      in if 2 * r < q then f else if q < 2 * r then f + 1 else if even f then f else f + 1)"

definition round53 :: "nat \<Rightarrow> nat \<Rightarrow> int \<times> int" where
  "round53 p q =
     (let u = binade p q - 52
      in (round_half_even (int p * 2 ^ nat (- u)) (int q * 2 ^ nat u), u))"

definition float_value :: "int \<times> int \<Rightarrow> real" where
  "float_value mu =
     (case mu of (m, u) \<Rightarrow>
        if 0 \<le> u then of_int (m * 2 ^ nat u) else of_int m / 2 ^ nat (- u))"

text \<open>
  \<open>float(v)\<close> for an integer \<open>v\<close>: the nearest double, which is an integer itself, or
  \<open>OverflowError\<close> when that is \<open>2 ^ 1024\<close> or more in magnitude.
\<close>

definition py_float :: "int \<Rightarrow> error + int" where
  "py_float v =
     (if v = 0 then Inr 0
      else (case round53 (nat \<bar>v\<bar>) 1 of (m, u) \<Rightarrow>
              (let x = (if 0 \<le> u then m * 2 ^ nat u else m div 2 ^ nat (- u))
               in if 2 ^ 1024 \<le> x then Inl OverflowError
                  else Inr (if v < 0 then - x else x))))"

text \<open>
  \<open>float(v) / 1000000\<close>: the conversion, then the division of two doubles (1000000 is
  a double), rounded to the nearest double.
\<close>

definition time_taken :: "int \<Rightarrow> error + real" where
  "time_taken v =
     (case py_float v of
        Inl e \<Rightarrow> Inl e
      | Inr x \<Rightarrow>
          Inr (if x = 0 then 0
               else if x < 0 then - float_value (round53 (nat \<bar>x\<bar>) 1000000)
               else float_value (round53 (nat \<bar>x\<bar>) 1000000)))"

record output_record =
  EVENT_NAME :: string
  CATEGORY :: string
  THREAD :: thread_id
  TIME_TAKEN :: real

text \<open>
  The inner loop \<open>for data in all_threads[line]\<close>: for each entry in order, the
  category lookup (line 272), then the conversion to seconds (line 274).
\<close>

fun thread_objects ::
  "categories \<Rightarrow> thread_id \<Rightarrow> event_times \<Rightarrow> error + output_record list" where
  "thread_objects cats line [] = Inr []"
| "thread_objects cats line (entry # rest) =
     (case map_of cats (fst entry) of
        None \<Rightarrow> Inl (KeyError (fst entry))
      | Some c \<Rightarrow>
          (case time_taken (snd entry) of
             Inl e \<Rightarrow> Inl e
           | Inr seconds \<Rightarrow>
               (case thread_objects cats line rest of
                  Inl e \<Rightarrow> Inl e
                | Inr objs \<Rightarrow>
                    Inr (\<lparr>EVENT_NAME = fst entry, CATEGORY = c, THREAD = line,
                          TIME_TAKEN = seconds\<rparr> # objs))))"

fun all_objects :: "categories \<Rightarrow> all_threads \<Rightarrow> error + output_record list" where
  "all_objects cats [] = Inr []"
| "all_objects cats (item # rest) =
     (case thread_objects cats (fst item) (snd item) of
        Inl e \<Rightarrow> Inl e
      | Inr objs \<Rightarrow>
          (case all_objects cats rest of
             Inl e \<Rightarrow> Inl e
           | Inr objs' \<Rightarrow> Inr (objs @ objs')))"

definition create_event_objects :: "all_threads \<times> categories \<Rightarrow> error + output_record list" where
  "create_event_objects data = all_objects (snd data) (fst data)"

text \<open>
  The part of \<open>main\<close> between the download and the insertion into the table:
  \<open>get_data\<close>, \<open>get_times\<close>, \<open>create_event_objects\<close>. The value of \<open>get_times\<close> is a
  list of two elements, so the test \<open>if not all_threads\<close> never takes its branch.
\<close>

definition main_objects :: "document option \<Rightarrow> error + output_record list" where
  "main_objects blob =
     (case get_data blob of
        Inl e \<Rightarrow> Inl e
      | Inr (build_id, threads) \<Rightarrow>
          (case get_times threads of
             Inl e \<Rightarrow> Inl e
           | Inr all \<Rightarrow> create_event_objects all))"

section \<open>Notions used to state the properties\<close>

text \<open>The duration of an event that has one (every processed event does).\<close>

definition dur_of :: "event \<Rightarrow> int" where
  "dur_of e = (case dur e of None \<Rightarrow> 0 | Some d \<Rightarrow> d)"

text \<open>The duration that a text of \<open>seen\<close> shows.\<close>

fun text_dur :: "dict_text \<Rightarrow> int" where
  "text_dur (Text e) = dur_of e"

text \<open>A Complete event: the test \<open>event["ph"] == "X"\<close>.\<close>

definition is_complete :: "event \<Rightarrow> bool" where
  "is_complete e = (ph e = Some ''X'')"

text \<open>
  The invariant of the per-thread loop: \<open>seen\<close> is a finite set of texts of processed
  events, every processed event has \<open>ts\<close> and \<open>dur\<close>, and the running total is the
  sum of the processed durations minus the durations of the texts in \<open>seen\<close>, each
  text counted once.
\<close>

definition thread_inv :: "thread_state \<Rightarrow> bool" where
  "thread_inv st =
     (finite (seen st) \<and> seen st \<subseteq> str ` set (all_events st) \<and>
      (\<forall>c \<in> set (all_events st). ts c \<noteq> None \<and> dur c \<noteq> None) \<and>
      total_time st = sum_list (map dur_of (all_events st)) - sum text_dur (seen st))"

text \<open>
  The name-to-category index as a last-write-wins fold over a sequence of events in
  which only Complete events that have a name and a category write.
\<close>

fun category_index :: "event list \<Rightarrow> (string \<rightharpoonup> string) \<Rightarrow> (string \<rightharpoonup> string)" where
  "category_index [] m = m"
| "category_index (e # es) m =
     category_index es
       (case (name e, cat e) of
          (Some n, Some c) \<Rightarrow> if ph e = Some ''X'' then m(n \<mapsto> c) else m
        | _ \<Rightarrow> m)"


text \<open>
  Events for the concrete runs: a Complete event and an instant event of thread 1,
  with their keys in this order.
\<close>

definition complete_event :: "string \<Rightarrow> string \<Rightarrow> int \<Rightarrow> int \<Rightarrow> event" where
  "complete_event n c t d = [Name n, Cat c, Ph ''X'', Ts t, Dur d, Tid (TidInt 1)]"

definition instant_event :: "string \<Rightarrow> string \<Rightarrow> int \<Rightarrow> event" where
  "instant_event n c t = [Name n, Cat c, Ph ''i'', Ts t, Tid (TidInt 1)]"

section \<open>The dict operations\<close>

lemma map_of_dict_set: "map_of (dict_set k v d) = (map_of d)(k \<mapsto> v)"
  by (induction d) (auto simp: fun_eq_iff)

lemma keys_dict_set: "fst ` set (dict_set k v d) = insert k (fst ` set d)"
  by (induction d) auto

lemma set_dict_set: "set (dict_set k v d) \<subseteq> insert (k, v) (set d)"
  by (induction d) auto

section \<open>The backward scan and the loop body\<close>

text \<open>
  On a list of events that all have \<open>ts\<close> and \<open>dur\<close>, the scan returns: it only
  adds keys of scanned events to \<open>seen\<close>, and it lowers the self-time by the
  durations of exactly the keys it adds.
\<close>

lemma scan_result:
  assumes "\<forall>c \<in> set es. ts c \<noteq> None \<and> dur c \<noteq> None" and "finite sn"
  shows "\<exists>sn' st'. scan low high edur es (sn, st) = Inr (sn', st') \<and> sn \<subseteq> sn' \<and>
           sn' \<subseteq> sn \<union> str ` set es \<and> finite sn' \<and> st' = st - sum text_dur (sn' - sn)"
  using assms
proof (induction es arbitrary: sn st)
  case Nil
  then show ?case by simp
next
  case (Cons cur rest)
  from Cons.prems obtain cts cdur where f: "ts cur = Some cts" "dur cur = Some cdur"
    by auto
  have rest: "\<forall>c \<in> set rest. ts c \<noteq> None \<and> dur c \<noteq> None"
    using Cons.prems by simp
  show ?case
  proof (cases "cts > low \<and> cts < high \<and> str cur \<notin> sn \<and> cdur < edur")
    case True
    have fin: "finite (insert (str cur) sn)" using Cons.prems by simp
    from Cons.IH [OF rest fin, of "st - cdur"] obtain sn' st' where
      r: "scan low high edur rest (insert (str cur) sn, st - cdur) = Inr (sn', st')"
         "insert (str cur) sn \<subseteq> sn'" "sn' \<subseteq> insert (str cur) sn \<union> str ` set rest" "finite sn'"
         "st' = st - cdur - sum text_dur (sn' - insert (str cur) sn)"
      by blast
    have eq: "sn' - sn = insert (str cur) (sn' - insert (str cur) sn)"
      using r(2) True by auto
    have step: "scan low high edur (cur # rest) (sn, st) = scan low high edur rest (insert (str cur) sn, st - cdur)"
      using True f by simp
    have fin': "finite (sn' - insert (str cur) sn)" using r(4) by simp
    have "sum text_dur (sn' - sn) = cdur + sum text_dur (sn' - insert (str cur) sn)"
      unfolding eq using fin' by (simp add: str_def dur_of_def f)
    then have v: "st' = st - sum text_dur (sn' - sn)" using r(5) by simp
    have s1: "sn \<subseteq> sn'" using r(2) by blast
    have s2: "sn' \<subseteq> sn \<union> str ` set (cur # rest)" using r(3) by auto
    show ?thesis using step r(1) s1 s2 r(4) v by simp
  next
    case False
    from Cons.IH [OF rest Cons.prems(2), of st] obtain sn' st' where
      r: "scan low high edur rest (sn, st) = Inr (sn', st')"
         "sn \<subseteq> sn'" "sn' \<subseteq> sn \<union> str ` set rest" "finite sn'"
         "st' = st - sum text_dur (sn' - sn)"
      by blast
    have step: "scan low high edur (cur # rest) (sn, st) = scan low high edur rest (sn, st)"
      using False f by auto
    have s2: "sn' \<subseteq> sn \<union> str ` set (cur # rest)" using r(3) by auto
    show ?thesis using step r(1) r(2) s2 r(4) r(5) by simp
  qed
qed

lemma overlap_result:
  assumes "thread_inv st"
  shows "\<exists>sn' self_time. overlap st t d = Inr (sn', self_time) \<and> seen st \<subseteq> sn' \<and>
           sn' \<subseteq> str ` set (all_events st) \<and> finite sn' \<and>
           self_time = d - sum text_dur (sn' - seen st)"
proof (cases "total_time st > 0")
  case True
  have a: "\<forall>c \<in> set (rev (all_events st)). ts c \<noteq> None \<and> dur c \<noteq> None"
    using assms by (simp add: thread_inv_def)
  have b: "finite (seen st)" using assms by (simp add: thread_inv_def)
  have c: "seen st \<subseteq> str ` set (all_events st)" using assms by (simp add: thread_inv_def)
  from scan_result [OF a b, of t "t + d" d d] obtain sn' st' where
    r: "scan t (t + d) d (rev (all_events st)) (seen st, d) = Inr (sn', st')"
    "seen st \<subseteq> sn'" "sn' \<subseteq> seen st \<union> str ` set (rev (all_events st))" "finite sn'"
    "st' = d - sum text_dur (sn' - seen st)"
    by blast
  have "sn' \<subseteq> str ` set (all_events st)" using r(3) c by auto
  then show ?thesis using True r
    by (simp add: overlap_def)
next
  case False
  have "finite (seen st)" "seen st \<subseteq> str ` set (all_events st)"
    using assms by (simp_all add: thread_inv_def)
  then show ?thesis using False by (simp add: overlap_def)
qed

lemma process_event_skip:
  "ph e = Some p \<Longrightarrow> p \<noteq> ''X'' \<Longrightarrow> process_event e s = Inr s"
  by (cases s) (simp add: process_event_def)

lemma process_event_no_ph:
  "ph e = None \<Longrightarrow> process_event e s = Inl IncorrectProfileFormatError"
  by (cases s) (simp add: process_event_def)

text \<open>
  What a successful step on a Complete event has read and written.
\<close>

lemma process_event_complete:
  assumes "ph e = Some ''X''" and "process_event e (st, cats) = Inr (st', cats')"
  shows "\<exists>t d c n sn self_time.
           ts e = Some t \<and> dur e = Some d \<and> cat e = Some c \<and> name e = Some n \<and>
           overlap st t d = Inr (sn, self_time) \<and>
           st' = \<lparr>total_time = total_time st + self_time,
                  all_events = all_events st @ [e],
                  event_times =
                    dict_set n ((case map_of (event_times st) n of None \<Rightarrow> 0 | Some v \<Rightarrow> v) + self_time)
                      (event_times st),
                  seen = sn\<rparr> \<and>
           cats' = dict_set n c cats"
  using assms
  by (auto simp: process_event_def split: option.split_asm sum.split_asm)

text \<open>
  The loop body keeps the invariant and appends exactly the Complete events.
\<close>

lemma process_event_inv:
  assumes "thread_inv st" and "process_event e (st, cats) = Inr (st', cats')"
  shows "thread_inv st' \<and> all_events st' = all_events st @ filter is_complete [e]"
proof (cases "ph e = Some ''X''")
  case True
  from process_event_complete [OF True assms(2)] obtain t d c n sn self_time where
    f: "ts e = Some t" "dur e = Some d" and
    ov: "overlap st t d = Inr (sn, self_time)" and
    st': "total_time st' = total_time st + self_time" "all_events st' = all_events st @ [e]"
         "seen st' = sn"
    by force
  from overlap_result [OF assms(1), of t d] ov have
    sn: "seen st \<subseteq> sn" "sn \<subseteq> str ` set (all_events st)" "finite sn"
        "self_time = d - sum text_dur (sn - seen st)"
    by auto
  have fin: "finite (seen st)" using assms(1) by (simp add: thread_inv_def)
  have "sum text_dur sn = sum text_dur (seen st) + sum text_dur (sn - seen st)"
    using sum.subset_diff [OF sn(1) sn(3), of text_dur] by simp
  moreover have "total_time st = sum_list (map dur_of (all_events st)) - sum text_dur (seen st)"
    using assms(1) by (simp add: thread_inv_def)
  moreover have "dur_of e = d" using f by (simp add: dur_of_def)
  ultimately have tt: "total_time st' = sum_list (map dur_of (all_events st')) - sum text_dur (seen st')"
    using st' sn(4) by simp
  have flds: "\<forall>c \<in> set (all_events st'). ts c \<noteq> None \<and> dur c \<noteq> None"
    using assms(1) f st'(2) by (auto simp: thread_inv_def)
  have sub: "seen st' \<subseteq> str ` set (all_events st')" using sn(2) st' by auto
  show ?thesis using tt flds sub sn(3) st'(3) st'(2) True
    by (simp add: thread_inv_def is_complete_def)
next
  case False
  show ?thesis
  proof (cases "ph e")
    case None
    then show ?thesis using assms(2) by (simp add: process_event_no_ph)
  next
    case (Some p)
    with False have "p \<noteq> ''X''" by simp
    from process_event_skip [OF Some this, of "(st, cats)"] assms show ?thesis
      using False by (simp add: is_complete_def)
  qed
qed

lemma thread_loop_inv:
  assumes "thread_inv st" and "thread_loop evs (st, cats) = Inr (st', cats')"
  shows "thread_inv st' \<and> all_events st' = all_events st @ filter is_complete evs"
  using assms
proof (induction evs arbitrary: st cats)
  case Nil
  then show ?case by simp
next
  case (Cons e evs)
  from Cons.prems(2) obtain st1 cats1 where
    p: "process_event e (st, cats) = Inr (st1, cats1)" and
    l: "thread_loop evs (st1, cats1) = Inr (st', cats')"
    by (auto split: sum.splits)
  from process_event_inv [OF Cons.prems(1) p] have
    i1: "thread_inv st1" and a1: "all_events st1 = all_events st @ filter is_complete [e]"
    by simp_all
  from Cons.IH [OF i1 l] a1 show ?case by simp
qed

lemma thread_inv_init: "thread_inv init_thread_state"
  by (simp add: thread_inv_def init_thread_state_def)

lemma process_event_no_ts_dur:
  "ph e = Some ''X'' \<Longrightarrow> ts e = None \<or> dur e = None \<Longrightarrow>
   process_event e s = Inl IncorrectProfileFormatError"
  by (cases s) (auto simp: process_event_def split: option.splits)

section \<open>The loop over a thread\<close>

lemma thread_loop_append:
  "thread_loop (xs @ ys) s =
     (case thread_loop xs s of Inl e \<Rightarrow> Inl e | Inr s' \<Rightarrow> thread_loop ys s')"
  by (induction xs arbitrary: s) (simp_all split: sum.splits)

lemma thread_loop_skip:
  "\<forall>x \<in> set pre. \<exists>p. ph x = Some p \<and> p \<noteq> ''X'' \<Longrightarrow> thread_loop pre s = Inr s"
proof (induction pre)
  case Nil
  then show ?case by simp
next
  case (Cons x pre)
  then obtain p where "ph x = Some p" "p \<noteq> ''X''" by auto
  then have "process_event x s = Inr s" by (rule process_event_skip)
  with Cons show ?case by simp
qed

lemma process_event_first:
  assumes "ph e = Some ''X''" and "ts e = Some t" and "dur e = Some d"
    and "cat e = Some c" and "name e = Some n"
  shows "process_event e (init_thread_state, cats) =
           Inr (\<lparr>total_time = d, all_events = [e], event_times = [(n, d)], seen = {}\<rparr>,
                dict_set n c cats)"
  using assms by (simp add: process_event_def overlap_def init_thread_state_def)

text \<open>
  An event that is not a Complete event of name \<open>n\<close> leaves the entry of \<open>n\<close> alone.
\<close>

lemma process_event_other_name:
  assumes "process_event x (st, cats) = Inr (st', cats')"
    and "\<not> (ph x = Some ''X'' \<and> name x = Some n)"
  shows "map_of (event_times st') n = map_of (event_times st) n"
proof (cases "ph x = Some ''X''")
  case True
  from process_event_complete [OF True assms(1)] obtain m v where
    "name x = Some m" "event_times st' = dict_set m v (event_times st)"
    by force
  with True assms(2) show ?thesis by (simp add: map_of_dict_set)
next
  case False
  show ?thesis
  proof (cases "ph x")
    case None
    then show ?thesis using assms(1) by (simp add: process_event_no_ph)
  next
    case (Some p)
    with False have "p \<noteq> ''X''" by simp
    from process_event_skip [OF Some this, of "(st, cats)"] assms(1) show ?thesis by simp
  qed
qed

lemma thread_loop_other_names:
  assumes "thread_loop post (st, cats) = Inr (st', cats')"
    and "\<forall>x \<in> set post. \<not> (ph x = Some ''X'' \<and> name x = Some n)"
  shows "map_of (event_times st') n = map_of (event_times st) n"
  using assms
proof (induction post arbitrary: st cats)
  case Nil
  then show ?case by simp
next
  case (Cons x post)
  from Cons.prems(1) obtain st1 cats1 where
    p: "process_event x (st, cats) = Inr (st1, cats1)" and
    l: "thread_loop post (st1, cats1) = Inr (st', cats')"
    by (auto split: sum.splits)
  have "map_of (event_times st1) n = map_of (event_times st) n"
    using process_event_other_name [OF p] Cons.prems(2) by simp
  moreover have "map_of (event_times st') n = map_of (event_times st1) n"
    using Cons.IH [OF l] Cons.prems(2) by simp
  ultimately show ?case by simp
qed

lemma overlap_gate: "total_time st \<le> 0 \<Longrightarrow> overlap st t d = Inr (seen st, d)"
  by (simp add: overlap_def)

section \<open>Categories and output rows\<close>

lemma category_index_append:
  "category_index (xs @ ys) m = category_index ys (category_index xs m)"
  by (induction xs arbitrary: m) simp_all

text \<open>
  The categories written by the loops are the fold \<open>category_index\<close>.
\<close>

lemma process_event_cats:
  assumes "process_event e (st, cats) = Inr (st', cats')"
  shows "map_of cats' = category_index [e] (map_of cats)"
proof (cases "ph e = Some ''X''")
  case True
  from process_event_complete [OF True assms] obtain c n where
    "cat e = Some c" "name e = Some n" "cats' = dict_set n c cats"
    by force
  with True show ?thesis by (simp add: map_of_dict_set)
next
  case False
  show ?thesis
  proof (cases "ph e")
    case None
    then show ?thesis using assms by (simp add: process_event_no_ph)
  next
    case (Some p)
    with False have "p \<noteq> ''X''" by simp
    from process_event_skip [OF Some this, of "(st, cats)"] assms have "cats' = cats" by simp
    with False show ?thesis by (simp split: option.splits)
  qed
qed

lemma thread_loop_cats:
  assumes "thread_loop evs (st, cats) = Inr (st', cats')"
  shows "map_of cats' = category_index evs (map_of cats)"
  using assms
proof (induction evs arbitrary: st cats)
  case Nil
  then show ?case by simp
next
  case (Cons e evs)
  from Cons.prems obtain st1 cats1 where
    p: "process_event e (st, cats) = Inr (st1, cats1)" and
    l: "thread_loop evs (st1, cats1) = Inr (st', cats')"
    by (auto split: sum.splits)
  have "map_of cats1 = category_index [e] (map_of cats)"
    using p by (rule process_event_cats)
  moreover have "map_of cats' = category_index evs (map_of cats1)"
    using l by (rule Cons.IH)
  ultimately show ?case by simp
qed

lemma threads_loop_cats:
  assumes "threads_loop ths (all, cats) = Inr (all', cats')"
  shows "map_of cats' = category_index (concat (map snd ths)) (map_of cats)"
  using assms
proof (induction ths arbitrary: all cats)
  case Nil
  then show ?case by simp
next
  case (Cons item ths)
  from Cons.prems obtain st cats1 where
    t: "thread_loop (snd item) (init_thread_state, cats) = Inr (st, cats1)" and
    l: "threads_loop ths (dict_set (fst item) (event_times st) all, cats1) = Inr (all', cats')"
    by (auto split: sum.splits)
  have "map_of cats1 = category_index (snd item) (map_of cats)"
    using t by (rule thread_loop_cats)
  moreover have "map_of cats' = category_index (concat (map snd ths)) (map_of cats1)"
    using l by (rule Cons.IH)
  ultimately show ?case by (simp add: category_index_append)
qed

text \<open>
  The rows of a table all of whose names have a category, and the category of every
  returned row.
\<close>

lemma time_taken_error: "time_taken v = Inl e \<Longrightarrow> e = OverflowError"
  by (auto simp: time_taken_def py_float_def Let_def split: sum.splits prod.splits if_splits)



text \<open>
  With a category for every name, the only error left is that of the conversion.
\<close>

lemma thread_objects_no_key_error:
  "\<forall>entry \<in> set m. map_of cats (fst entry) \<noteq> None \<Longrightarrow>
   (\<exists>objs. thread_objects cats line m = Inr objs) \<or>
   thread_objects cats line m = Inl OverflowError"
proof (induction m)
  case Nil
  then show ?case by simp
next
  case (Cons entry m)
  from Cons.prems obtain c where c: "map_of cats (fst entry) = Some c" by auto
  have ih: "(\<exists>objs. thread_objects cats line m = Inr objs) \<or>
        thread_objects cats line m = Inl OverflowError"
    using Cons by simp
  show ?case
  proof (cases "time_taken (snd entry)")
    case (Inl e)
    then have "e = OverflowError" by (rule time_taken_error)
    with Inl c show ?thesis by simp
  next
    case (Inr seconds)
    with c ih show ?thesis by auto
  qed
qed

lemma all_objects_no_key_error:
  "\<forall>item \<in> set tbl. \<forall>entry \<in> set (snd item). map_of cats (fst entry) \<noteq> None \<Longrightarrow>
   (\<exists>objs. all_objects cats tbl = Inr objs) \<or> all_objects cats tbl = Inl OverflowError"
proof (induction tbl)
  case Nil
  then show ?case by simp
next
  case (Cons item tbl)
  have a: "(\<exists>objs. thread_objects cats (fst item) (snd item) = Inr objs) \<or>
        thread_objects cats (fst item) (snd item) = Inl OverflowError"
    using Cons.prems by (intro thread_objects_no_key_error) simp
  have b: "(\<exists>objs. all_objects cats tbl = Inr objs) \<or> all_objects cats tbl = Inl OverflowError"
    using Cons by simp
  from a b show ?case by auto
qed

lemma thread_objects_category:
  "thread_objects cats line m = Inr objs \<Longrightarrow>
   \<forall>r \<in> set objs. map_of cats (EVENT_NAME r) = Some (CATEGORY r)"
  by (induction m arbitrary: objs) (auto split: option.splits sum.splits)

lemma all_objects_category:
  "all_objects cats tbl = Inr objs \<Longrightarrow>
   \<forall>r \<in> set objs. map_of cats (EVENT_NAME r) = Some (CATEGORY r)"
proof (induction tbl arbitrary: objs)
  case Nil
  then show ?case by simp
next
  case (Cons item tbl)
  from Cons.prems obtain o1 o2 where
    a: "thread_objects cats (fst item) (snd item) = Inr o1" and
    b: "all_objects cats tbl = Inr o2" and c: "objs = o1 @ o2"
    by (auto split: sum.splits)
  from thread_objects_category [OF a] Cons.IH [OF b] c show ?case by auto
qed


lemma threads_loop_append:
  "threads_loop (xs @ ys) s =
     (case threads_loop xs s of Inl e \<Rightarrow> Inl e | Inr s' \<Rightarrow> threads_loop ys s')"
  by (induction xs arbitrary: s) (simp_all split: sum.splits prod.splits)

text \<open>
  The names of a thread's table stay among the keys of the categories, and a step
  that returns on a Complete event has read its \<open>cat\<close>.
\<close>

lemma process_event_names:
  assumes "process_event e (st, cats) = Inr (st', cats')"
    and "fst ` set (event_times st) \<subseteq> fst ` set cats"
  shows "fst ` set (event_times st') \<subseteq> fst ` set cats' \<and>
         (ph e = Some ''X'' \<longrightarrow> cat e \<noteq> None)"
proof (cases "ph e = Some ''X''")
  case True
  from process_event_complete [OF True assms(1)] obtain c n v where
    "cat e = Some c" "cats' = dict_set n c cats" "event_times st' = dict_set n v (event_times st)"
    by force
  with assms(2) show ?thesis by (auto simp: keys_dict_set)
next
  case False
  show ?thesis
  proof (cases "ph e")
    case None
    then show ?thesis using assms(1) by (simp add: process_event_no_ph)
  next
    case (Some p)
    with False have "p \<noteq> ''X''" by simp
    from process_event_skip [OF Some this, of "(st, cats)"] assms False show ?thesis by auto
  qed
qed

lemma thread_loop_names:
  assumes "thread_loop evs (st, cats) = Inr (st', cats')"
    and "fst ` set (event_times st) \<subseteq> fst ` set cats"
  shows "fst ` set (event_times st') \<subseteq> fst ` set cats' \<and>
         (\<forall>e \<in> set evs. ph e = Some ''X'' \<longrightarrow> cat e \<noteq> None)"
  using assms
proof (induction evs arbitrary: st cats)
  case Nil
  then show ?case by simp
next
  case (Cons e evs)
  from Cons.prems(1) obtain st1 cats1 where
    p: "process_event e (st, cats) = Inr (st1, cats1)" and
    l: "thread_loop evs (st1, cats1) = Inr (st', cats')"
    by (auto split: sum.splits)
  from process_event_names [OF p Cons.prems(2)] have
    a: "fst ` set (event_times st1) \<subseteq> fst ` set cats1" and b: "ph e = Some ''X'' \<longrightarrow> cat e \<noteq> None"
    by simp_all
  from Cons.IH [OF l a] b show ?case by simp
qed

lemma thread_loop_cats_grow:
  assumes "thread_loop evs (st, cats) = Inr (st', cats')"
  shows "fst ` set cats \<subseteq> fst ` set cats'"
proof -
  have "map_of cats' = category_index evs (map_of cats)"
    using assms by (rule thread_loop_cats)
  moreover have "dom m \<subseteq> dom (category_index evs m)" for m
  proof (induction evs arbitrary: m)
    case Nil
    then show ?case by simp
  next
    case (Cons e evs)
    let ?m = "case (name e, cat e) of
                (Some n, Some c) \<Rightarrow> if ph e = Some ''X'' then m(n \<mapsto> c) else m
              | _ \<Rightarrow> m"
    have "dom m \<subseteq> dom ?m" by (auto split: option.splits)
    moreover have "dom ?m \<subseteq> dom (category_index evs ?m)" by (rule Cons.IH)
    ultimately show ?case by simp
  qed
  ultimately have "dom (map_of cats) \<subseteq> dom (map_of cats')" by simp
  then show ?thesis by (simp add: dom_map_of_conv_image_fst)
qed

lemma threads_loop_names:
  assumes "threads_loop ths (all, cats) = Inr (all', cats')"
    and "\<forall>item \<in> set all. fst ` set (snd item) \<subseteq> fst ` set cats"
  shows "(\<forall>item \<in> set all'. fst ` set (snd item) \<subseteq> fst ` set cats') \<and>
         (\<forall>item \<in> set ths. \<forall>e \<in> set (snd item). ph e = Some ''X'' \<longrightarrow> cat e \<noteq> None)"
  using assms
proof (induction ths arbitrary: all cats)
  case Nil
  then show ?case by simp
next
  case (Cons item ths)
  from Cons.prems(1) obtain st cats1 where
    t: "thread_loop (snd item) (init_thread_state, cats) = Inr (st, cats1)" and
    l: "threads_loop ths (dict_set (fst item) (event_times st) all, cats1) = Inr (all', cats')"
    by (auto split: sum.splits)
  have "fst ` set (event_times init_thread_state) \<subseteq> fst ` set cats"
    by (simp add: init_thread_state_def)
  from thread_loop_names [OF t this] have
    a: "fst ` set (event_times st) \<subseteq> fst ` set cats1" and
    b: "\<forall>e \<in> set (snd item). ph e = Some ''X'' \<longrightarrow> cat e \<noteq> None"
    by simp_all
  have g: "fst ` set cats \<subseteq> fst ` set cats1"
    using t by (rule thread_loop_cats_grow)
  have "\<forall>it \<in> set (dict_set (fst item) (event_times st) all). fst ` set (snd it) \<subseteq> fst ` set cats1"
  proof
    fix it assume "it \<in> set (dict_set (fst item) (event_times st) all)"
    then have "it = (fst item, event_times st) \<or> it \<in> set all"
      using set_dict_set [of "fst item" "event_times st" all] by auto
    then show "fst ` set (snd it) \<subseteq> fst ` set cats1"
    proof
      assume "it = (fst item, event_times st)"
      then show ?thesis using a by simp
    next
      assume "it \<in> set all"
      then have "fst ` set (snd it) \<subseteq> fst ` set cats" using Cons.prems(2) by blast
      then show ?thesis using g by (rule subset_trans)
    qed
  qed
  from Cons.IH [OF l this] b show ?case by simp
qed

section \<open>The conversion to a float\<close>


lemma bit_length_one: "bit_length (Suc 0) = Suc 0"
  by (simp add: bit_length.simps)



lemma bit_length_bounds:
  "n \<noteq> 0 \<Longrightarrow> 2 ^ (bit_length n - 1) \<le> n \<and> n < 2 ^ bit_length n"
proof (induction n rule: bit_length.induct)
  case (1 n)
  show ?case
  proof (cases "n div 2 = 0")
    case True
    with "1.prems" have n: "n = 1" by linarith
    have "bit_length (n div 2) = 0" using True by (simp add: bit_length.simps)
    then have "bit_length n = 1" using n by (subst bit_length.simps) simp
    with n show ?thesis by simp
  next
    case False
    from "1.IH" [OF "1.prems" False] have
      ih: "2 ^ (bit_length (n div 2) - 1) \<le> n div 2" "n div 2 < 2 ^ bit_length (n div 2)"
      by simp_all
    have b: "bit_length n = Suc (bit_length (n div 2))"
      using "1.prems" by (subst bit_length.simps) simp
    have pos: "bit_length (n div 2) \<noteq> 0"
      using False by (subst bit_length.simps) simp
    then obtain j where j: "bit_length (n div 2) = Suc j" by (cases "bit_length (n div 2)") auto
    have "2 * 2 ^ j \<le> 2 * (n div 2)" using ih(1) j by simp
    then have lo: "2 ^ Suc j \<le> n" by simp
    have "Suc (n div 2) \<le> 2 ^ Suc j" using ih(2) j by simp
    then have "2 * Suc (n div 2) \<le> 2 * 2 ^ Suc j" by simp
    then have hi: "n < 2 ^ Suc (Suc j)" by simp
    show ?thesis using lo hi b j by simp
  qed
qed

text \<open>An integer below \<open>2 ^ 53\<close> in magnitude is a double: the conversion is exact.\<close>

lemma py_float_small:
  assumes "\<bar>v\<bar> < 2 ^ 53"
  shows "py_float v = Inr v"
proof (cases "v = 0")
  case True
  then show ?thesis by (simp add: py_float_def)
next
  case False
  define n where "n = nat \<bar>v\<bar>"
  define k where "k = 53 - bit_length n"
  have n0: "n \<noteq> 0" using False by (simp add: n_def)
  have nv: "int n = \<bar>v\<bar>" by (simp add: n_def)
  from bit_length_bounds [OF n0] have lo: "2 ^ (bit_length n - 1) \<le> n" by simp
  have bpos: "bit_length n \<noteq> 0" using n0 by (subst bit_length.simps) simp
  have "n < 2 ^ 53" using assms nv by simp
  with lo have "(2 :: nat) ^ (bit_length n - 1) < 2 ^ 53" by (rule le_less_trans)
  then have "bit_length n - 1 < 53"
    using power_less_imp_less_exp [of 2 "bit_length n - 1" 53] by (simp del: power_numeral)
  then have b53: "bit_length n \<le> 53" by simp
  have lo': "2 ^ nat (int (bit_length n) - 1) \<le> n"
    using lo bpos by (simp add: nat_diff_distrib')
  have bin: "binade n (Suc 0) = int (bit_length n) - 1"
    using lo' bpos by (simp add: binade_def bit_length_one Let_def)
  have ku: "nat (53 - int (bit_length n)) = k" "nat (int (bit_length n) - 53) = 0"
    using b53 by (simp_all add: k_def)
  have r: "round53 n (Suc 0) = (int n * 2 ^ k, int (bit_length n) - 53)"
    by (simp add: round53_def bin round_half_even_def Let_def ku)
  have small: "\<not> (2 :: int) ^ 1024 \<le> int n" using assms nv by simp
  have sgn: "(if v < 0 then - int n else int n) = v" using nv by simp
  have "py_float v = Inr (if v < 0 then - int n else int n)"
  proof (cases "bit_length n = 53")
    case True
    then have "round53 n (Suc 0) = (int n, 0)" using r by (simp add: k_def)
    then show ?thesis
      unfolding py_float_def n_def [symmetric] One_nat_def using False small by simp
  next
    case False
    with b53 have lt: "\<not> 0 \<le> int (bit_length n) - 53" by simp
    have "nat (- (int (bit_length n) - 53)) = k" using ku(1) by simp
    then have "int n * 2 ^ k div 2 ^ nat (- (int (bit_length n) - 53)) = int n" by simp
    then show ?thesis
      unfolding py_float_def n_def [symmetric] One_nat_def r using \<open>v \<noteq> 0\<close> small lt
      by (simp add: Let_def)
  qed
  then show ?thesis by (simp only: sgn)
qed

lemma time_taken_small: "\<bar>v\<bar> < 2 ^ 53 \<Longrightarrow> time_taken v \<noteq> Inl OverflowError"
  by (simp add: time_taken_def py_float_small)


section \<open>The errors of get_data\<close>

lemma get_data_error:
  "get_data blob = Inl e \<Longrightarrow> e = UnableToUnzipFileError"
  by (simp add: get_data_def split: sum.splits)

section \<open>The claims\<close>

lemmas run_defs = get_times_def init_thread_state_def process_event_def overlap_def str_def
  complete_event_def instant_event_def

lemmas float_defs = time_taken_def py_float_def round53_def binade_def round_half_even_def
  float_value_def bit_length.simps Let_def

text \<open>
  The texts tell apart two dicts that agree on the six keys but not on the order of
  their keys: both are subtracted from the later event P (its self-time is 10 - 2 - 2).
  The same dict met twice has one text and is subtracted once (10 - 2).
\<close>

lemma texts_show_key_order:
  "get_times
     [(TidInt 1, [[Name ''C'', Cat ''a'', Ph ''X'', Ts 1, Dur 2],
                  [Cat ''a'', Name ''C'', Ph ''X'', Ts 1, Dur 2],
                  [Name ''P'', Cat ''a'', Ph ''X'', Ts 0, Dur 10]])]
   = Inr ([(TidInt 1, [(''C'', 4), (''P'', 6)])], [(''C'', ''a''), (''P'', ''a'')]) \<and>
   get_times
     [(TidInt 1, [[Name ''C'', Cat ''a'', Ph ''X'', Ts 1, Dur 2],
                  [Name ''C'', Cat ''a'', Ph ''X'', Ts 1, Dur 2],
                  [Name ''P'', Cat ''a'', Ph ''X'', Ts 0, Dur 10]])]
   = Inr ([(TidInt 1, [(''C'', 4), (''P'', 8)])], [(''C'', ''a''), (''P'', ''a'')])"
  by (simp add: run_defs)

text \<open>
  C1. A thread with exactly two events, in this order: a Complete child (ts 10, dur 20,
  name C) and a Complete parent (ts 0, dur 100, name P). \<open>get_times\<close> returns
  self-time 20 for C and 80 for P on that thread, whatever the thread identifier, the
  two categories, the order of the keys and the other keys of the two events are.
\<close>

theorem containment_subtraction:
  assumes "name child = Some ''C'' \<and> cat child = Some c1 \<and> ph child = Some ''X'' \<and>
           ts child = Some 10 \<and> dur child = Some 20"
    and "name parent = Some ''P'' \<and> cat parent = Some c2 \<and> ph parent = Some ''X'' \<and>
         ts parent = Some 0 \<and> dur parent = Some 100"
  shows "get_times [(t, [child, parent])]
           = Inr ([(t, [(''C'', 20), (''P'', 80)])], [(''C'', c1), (''P'', c2)])"
  using assms by (simp add: get_times_def init_thread_state_def process_event_def overlap_def)

text \<open>A run of the theorem above, on thread 1 with the categories \<open>action\<close> and \<open>build\<close>.\<close>

theorem containment_subtraction_witness:
  "get_times
     [(TidInt 1, [[Name ''C'', Cat ''action'', Ph ''X'', Ts 10, Dur 20, Tid (TidInt 1)],
                  [Name ''P'', Cat ''build'', Ph ''X'', Ts 0, Dur 100, Tid (TidInt 1)]])]
   = Inr ([(TidInt 1, [(''C'', 20), (''P'', 80)])], [(''C'', ''action''), (''P'', ''build'')])"
  using containment_subtraction
          [of "[Name ''C'', Cat ''action'', Ph ''X'', Ts 10, Dur 20, Tid (TidInt 1)]" "''action''"
              "[Name ''P'', Cat ''build'', Ph ''X'', Ts 0, Dur 100, Tid (TidInt 1)]" "''build''"
              "TidInt 1"]
  by simp

text \<open>
  C2. In every thread, an event whose text is in \<open>seen\<close> has been subtracted once and
  is not subtracted again. When the loop over a thread's events returns, the processed
  events are the Complete events of the timeline in arrival order, \<open>seen\<close> holds texts
  of processed events only, and the running total is the sum of the processed durations
  minus the durations of the texts in \<open>seen\<close>, each text counted once. For any further
  event (timestamp \<open>t\<close>, duration \<open>d\<close>) the scan returns, keeps the texts already in
  \<open>seen\<close>, and lowers the self-time by the durations of the texts it adds and of no
  other event, wherever the timestamps of the events already in \<open>seen\<close> lie.
\<close>

theorem single_use_subtraction:
  assumes "thread_loop evs (init_thread_state, cats) = Inr (st, cats')"
  shows "all_events st = filter is_complete evs \<and>
         seen st \<subseteq> str ` set (all_events st) \<and>
         total_time st = sum_list (map dur_of (all_events st)) - sum text_dur (seen st) \<and>
         (\<forall>t d. \<exists>sn self_time.
            overlap st t d = Inr (sn, self_time) \<and> seen st \<subseteq> sn \<and>
            self_time = d - sum text_dur (sn - seen st))"
proof -
  from thread_loop_inv [OF thread_inv_init assms] have
    i: "thread_inv st" and a: "all_events st = filter is_complete evs"
    by (simp_all add: init_thread_state_def)
  have "\<forall>t d. \<exists>sn self_time.
            overlap st t d = Inr (sn, self_time) \<and> seen st \<subseteq> sn \<and>
            self_time = d - sum text_dur (sn - seen st)"
    using overlap_result [OF i] by blast
  with i a show ?thesis by (simp add: thread_inv_def)
qed

text \<open>
  A run of the theorem above: the child C (ts 10, dur 5) starts inside both later
  events P (ts 0, dur 50) and Q (ts 5, dur 40); it is subtracted from P only.
\<close>

theorem single_use_subtraction_witness:
  "thread_loop
     [complete_event ''C'' ''action'' 10 5, complete_event ''P'' ''action'' 0 50,
      complete_event ''Q'' ''action'' 5 40]
     (init_thread_state, [])
   = Inr (\<lparr>total_time = 90,
           all_events = [complete_event ''C'' ''action'' 10 5, complete_event ''P'' ''action'' 0 50,
                         complete_event ''Q'' ''action'' 5 40],
           event_times = [(''C'', 5), (''P'', 45), (''Q'', 40)],
           seen = {str (complete_event ''C'' ''action'' 10 5)}\<rparr>,
          [(''C'', ''action''), (''P'', ''action''), (''Q'', ''action'')]) \<and>
   (90 :: int) =
     sum_list (map dur_of [complete_event ''C'' ''action'' 10 5, complete_event ''P'' ''action'' 0 50,
                           complete_event ''Q'' ''action'' 5 40])
     - sum text_dur {str (complete_event ''C'' ''action'' 10 5)}"
proof -
  have h: "thread_loop
     [complete_event ''C'' ''action'' 10 5, complete_event ''P'' ''action'' 0 50,
      complete_event ''Q'' ''action'' 5 40]
     (init_thread_state, [])
   = Inr (\<lparr>total_time = 90,
           all_events = [complete_event ''C'' ''action'' 10 5, complete_event ''P'' ''action'' 0 50,
                         complete_event ''Q'' ''action'' 5 40],
           event_times = [(''C'', 5), (''P'', 45), (''Q'', 40)],
           seen = {str (complete_event ''C'' ''action'' 10 5)}\<rparr>,
          [(''C'', ''action''), (''P'', ''action''), (''Q'', ''action'')])"
    by (simp add: run_defs)
  note a = single_use_subtraction [OF h, THEN conjunct2, THEN conjunct2, THEN conjunct1,
      unfolded thread_state.select_convs]
  from h a show ?thesis by (rule conjI)
qed

text \<open>
  C3. The first Complete event of a thread keeps its raw duration as self-time. If the
  events before \<open>e\<close> all have a phase other than \<open>X\<close> and \<open>e\<close> is a Complete event
  with all its fields, then after \<open>e\<close> the thread's table is exactly \<open>[(n, d)]\<close> with
  nothing marked as subtracted; and whatever events come later, if the loop returns and
  no later Complete event has the name \<open>n\<close>, the final entry of \<open>n\<close> is still \<open>d\<close>.
  The scan is gated: in any state whose running total is not above 0 the self-time is
  the raw duration and \<open>seen\<close> is unchanged.
\<close>

theorem first_event_exemption:
  assumes "\<forall>x \<in> set pre. \<exists>p. ph x = Some p \<and> p \<noteq> ''X''"
    and "ph e = Some ''X'' \<and> ts e = Some t \<and> dur e = Some d \<and> cat e = Some c \<and> name e = Some n"
    and "\<forall>x \<in> set post. \<not> (ph x = Some ''X'' \<and> name x = Some n)"
    and "thread_loop (pre @ e # post) (init_thread_state, cats) = Inr (st, cats')"
  shows "thread_loop (pre @ [e]) (init_thread_state, cats) =
           Inr (\<lparr>total_time = d, all_events = [e], event_times = [(n, d)], seen = {}\<rparr>,
                dict_set n c cats) \<and>
         map_of (event_times st) n = Some d \<and>
         (\<forall>s t' d'. total_time s \<le> 0 \<longrightarrow> overlap s t' d' = Inr (seen s, d'))"
proof -
  let ?s1 = "(\<lparr>total_time = d, all_events = [e], event_times = [(n, d)], seen = {}\<rparr>,
              dict_set n c cats)"
  have pre: "thread_loop pre (init_thread_state, cats) = Inr (init_thread_state, cats)"
    using assms(1) by (rule thread_loop_skip)
  have one: "process_event e (init_thread_state, cats) = Inr ?s1"
    using assms(2) by (intro process_event_first) simp_all
  have a: "thread_loop (pre @ [e]) (init_thread_state, cats) = Inr ?s1"
    using pre one by (simp add: thread_loop_append)
  have "thread_loop (pre @ e # post) (init_thread_state, cats) = thread_loop post ?s1"
    using pre one by (simp add: thread_loop_append)
  with assms(4) have "thread_loop post ?s1 = Inr (st, cats')" by simp
  from thread_loop_other_names [OF this assms(3)] have b: "map_of (event_times st) n = Some d"
    by simp
  show ?thesis using a b overlap_gate by blast
qed

text \<open>
  A run of the theorem above: an instant event, then the child C, then a parent P
  whose interval contains the child's timestamp. C keeps 20.
\<close>

theorem first_event_exemption_witness:
  "thread_loop
     ([instant_event ''I'' ''info'' 3] @ complete_event ''C'' ''action'' 10 20 #
      [complete_event ''P'' ''action'' 0 100])
     (init_thread_state, [])
   = Inr (\<lparr>total_time = 100,
           all_events = [complete_event ''C'' ''action'' 10 20, complete_event ''P'' ''action'' 0 100],
           event_times = [(''C'', 20), (''P'', 80)],
           seen = {str (complete_event ''C'' ''action'' 10 20)}\<rparr>,
          [(''C'', ''action''), (''P'', ''action'')]) \<and>
   map_of [(''C'', 20), (''P'', 80 :: int)] ''C'' = Some 20"
proof -
  have h: "thread_loop
     ([instant_event ''I'' ''info'' 3] @ complete_event ''C'' ''action'' 10 20 #
      [complete_event ''P'' ''action'' 0 100])
     (init_thread_state, [])
   = Inr (\<lparr>total_time = 100,
           all_events = [complete_event ''C'' ''action'' 10 20, complete_event ''P'' ''action'' 0 100],
           event_times = [(''C'', 20), (''P'', 80)],
           seen = {str (complete_event ''C'' ''action'' 10 20)}\<rparr>,
          [(''C'', ''action''), (''P'', ''action'')])"
    by (simp add: run_defs)
  have pre: "\<forall>x \<in> set [instant_event ''I'' ''info'' 3]. \<exists>p. ph x = Some p \<and> p \<noteq> ''X''"
    by (simp add: instant_event_def)
  have e: "ph (complete_event ''C'' ''action'' 10 20) = Some ''X'' \<and>
           ts (complete_event ''C'' ''action'' 10 20) = Some 10 \<and>
           dur (complete_event ''C'' ''action'' 10 20) = Some 20 \<and>
           cat (complete_event ''C'' ''action'' 10 20) = Some ''action'' \<and>
           name (complete_event ''C'' ''action'' 10 20) = Some ''C''"
    by (simp add: complete_event_def)
  have post: "\<forall>x \<in> set [complete_event ''P'' ''action'' 0 100].
                \<not> (ph x = Some ''X'' \<and> name x = Some ''C'')"
    by (simp add: complete_event_def)
  from first_event_exemption [OF pre e post h] show ?thesis using h by simp
qed

text \<open>
  C4 (as amended). The name-to-category index that the output rows read is the one
  \<open>get_times\<close> builds: when \<open>get_times\<close> returns, its category mapping is the
  last-write-wins fold over the Complete events, in the order in which \<open>get_times\<close>
  processes them (thread after thread, arrival order within a thread); records of
  another phase write nothing. Every row that \<open>main\<close> obtains carries, as its category,
  the value of that fold at the row's event name.
\<close>

theorem category_index_of_complete_events:
  "(get_times threads = Inr (tbl, cats) \<longrightarrow>
      map_of cats = category_index (concat (map snd threads)) Map.empty) \<and>
   (main_objects blob = Inr objs \<longrightarrow>
      (\<exists>build_id grouped.
         get_data blob = Inr (build_id, grouped) \<and>
         (\<forall>r \<in> set objs.
            category_index (concat (map snd grouped)) Map.empty (EVENT_NAME r) = Some (CATEGORY r))))"
proof -
  have one: "map_of cats = category_index (concat (map snd threads)) Map.empty"
    if "get_times threads = Inr (tbl, cats)"
    using threads_loop_cats [of threads "[]" "[]" tbl cats] that by (simp add: get_times_def)
  have two: "\<exists>build_id grouped.
         get_data blob = Inr (build_id, grouped) \<and>
         (\<forall>r \<in> set objs.
            category_index (concat (map snd grouped)) Map.empty (EVENT_NAME r) = Some (CATEGORY r))"
    if h: "main_objects blob = Inr objs"
  proof -
    from h obtain build_id grouped tbl' cats' where
      g: "get_data blob = Inr (build_id, grouped)" and
      t: "get_times grouped = Inr (tbl', cats')" and
      c: "create_event_objects (tbl', cats') = Inr objs"
      by (auto simp: main_objects_def split: sum.splits)
    have "map_of cats' = category_index (concat (map snd grouped)) Map.empty"
      using threads_loop_cats [of grouped "[]" "[]" tbl' cats'] t by (simp add: get_times_def)
    moreover have "\<forall>r \<in> set objs. map_of cats' (EVENT_NAME r) = Some (CATEGORY r)"
      using c all_objects_category [of cats' tbl' objs] by (simp add: create_event_objects_def)
    ultimately show ?thesis using g by simp
  qed
  show ?thesis using one two by blast
qed

text \<open>
  A run of the theorem above: two Complete events of the same name with categories
  \<open>c1\<close> then \<open>c2\<close>; the index and the row hold \<open>c2\<close>. The time of the row is the
  double nearest to 12 millionths.
\<close>

theorem category_index_of_complete_events_witness:
  "get_times [(TidInt 1, [complete_event ''A'' ''c1'' 0 5, complete_event ''A'' ''c2'' 20 7])]
     = Inr ([(TidInt 1, [(''A'', 12)])], [(''A'', ''c2'')]) \<and>
   category_index [complete_event ''A'' ''c1'' 0 5, complete_event ''A'' ''c2'' 20 7] Map.empty ''A''
     = Some ''c2'' \<and>
   main_objects
     (Some \<lparr>otherData = Some [(''build_id'', ''b'')],
            traceEvents = Some [complete_event ''A'' ''c1'' 0 5, complete_event ''A'' ''c2'' 20 7]\<rparr>)
     = Inr [\<lparr>EVENT_NAME = ''A'', CATEGORY = ''c2'', THREAD = TidInt 1,
              TIME_TAKEN = 7083549724304468 / 2 ^ 69\<rparr>]"
proof -
  have h1: "get_times [(TidInt 1, [complete_event ''A'' ''c1'' 0 5, complete_event ''A'' ''c2'' 20 7])]
     = Inr ([(TidInt 1, [(''A'', 12)])], [(''A'', ''c2'')])"
    by (simp add: run_defs)
  have t: "time_taken 12 = Inr (7083549724304468 / 2 ^ 69)"
    by (simp add: float_defs)
  have g: "get_data
     (Some \<lparr>otherData = Some [(''build_id'', ''b'')],
            traceEvents = Some [complete_event ''A'' ''c1'' 0 5, complete_event ''A'' ''c2'' 20 7]\<rparr>)
     = Inr (''b'', [(TidInt 1, [complete_event ''A'' ''c1'' 0 5, complete_event ''A'' ''c2'' 20 7])])"
    by (simp add: get_data_def get_data_try_def get_data_line_def complete_event_def)
  have h2: "main_objects
     (Some \<lparr>otherData = Some [(''build_id'', ''b'')],
            traceEvents = Some [complete_event ''A'' ''c1'' 0 5, complete_event ''A'' ''c2'' 20 7]\<rparr>)
     = Inr [\<lparr>EVENT_NAME = ''A'', CATEGORY = ''c2'', THREAD = TidInt 1,
              TIME_TAKEN = 7083549724304468 / 2 ^ 69\<rparr>]"
    unfolding main_objects_def g by (simp add: h1 t create_event_objects_def)
  from category_index_of_complete_events
         [of "[(TidInt 1, [complete_event ''A'' ''c1'' 0 5, complete_event ''A'' ''c2'' 20 7])]"
             "[(TidInt 1, [(''A'', 12)])]" "[(''A'', ''c2'')]"
             "Some \<lparr>otherData = Some [(''build_id'', ''b'')],
                    traceEvents = Some [complete_event ''A'' ''c1'' 0 5,
                                        complete_event ''A'' ''c2'' 20 7]\<rparr>"
             "[\<lparr>EVENT_NAME = ''A'', CATEGORY = ''c2'', THREAD = TidInt 1,
                 TIME_TAKEN = 7083549724304468 / 2 ^ 69\<rparr>]"]
  show ?thesis using h1 h2 by (simp add: complete_event_def)
qed

text \<open>
  The claim C4 as stated fails. A Complete record A with category \<open>c1\<close> is followed
  by an instant record A with category \<open>c2\<close>. The index that \<open>get_data\<close> builds maps
  each category to a list of names and is not returned; the row of A carries \<open>c1\<close>,
  not the category \<open>c2\<close> of the record seen last.
\<close>

theorem category_index_counterexample:
  "get_data_lines [complete_event ''A'' ''c1'' 0 5, instant_event ''A'' ''c2'' 3] ([], [])
     = Inr ([(TidInt 1, [complete_event ''A'' ''c1'' 0 5, instant_event ''A'' ''c2'' 3])],
            [(''c1'', [''A'']), (''c2'', [''A''])]) \<and>
   main_objects
     (Some \<lparr>otherData = Some [(''build_id'', ''b'')],
            traceEvents = Some [complete_event ''A'' ''c1'' 0 5, instant_event ''A'' ''c2'' 3]\<rparr>)
     = Inr [\<lparr>EVENT_NAME = ''A'', CATEGORY = ''c1'', THREAD = TidInt 1,
              TIME_TAKEN = 5902958103587057 / 2 ^ 70\<rparr>]"
proof -
  have t: "time_taken 5 = Inr (5902958103587057 / 2 ^ 70)"
    by (simp add: float_defs)
  have l: "get_data_lines [complete_event ''A'' ''c1'' 0 5, instant_event ''A'' ''c2'' 3] ([], [])
     = Inr ([(TidInt 1, [complete_event ''A'' ''c1'' 0 5, instant_event ''A'' ''c2'' 3])],
            [(''c1'', [''A'']), (''c2'', [''A''])])"
    by (simp add: get_data_line_def complete_event_def instant_event_def)
  have h: "get_times [(TidInt 1, [complete_event ''A'' ''c1'' 0 5, instant_event ''A'' ''c2'' 3])]
     = Inr ([(TidInt 1, [(''A'', 5)])], [(''A'', ''c1'')])"
    by (simp add: run_defs)
  have g: "get_data
     (Some \<lparr>otherData = Some [(''build_id'', ''b'')],
            traceEvents = Some [complete_event ''A'' ''c1'' 0 5, instant_event ''A'' ''c2'' 3]\<rparr>)
     = Inr (''b'', [(TidInt 1, [complete_event ''A'' ''c1'' 0 5, instant_event ''A'' ''c2'' 3])])"
    using l by (simp add: get_data_def get_data_try_def del: get_data_lines.simps)
  have "main_objects
     (Some \<lparr>otherData = Some [(''build_id'', ''b'')],
            traceEvents = Some [complete_event ''A'' ''c1'' 0 5, instant_event ''A'' ''c2'' 3]\<rparr>)
     = Inr [\<lparr>EVENT_NAME = ''A'', CATEGORY = ''c1'', THREAD = TidInt 1,
              TIME_TAKEN = 5902958103587057 / 2 ^ 70\<rparr>]"
    unfolding main_objects_def g by (simp add: h t create_event_objects_def)
  with l show ?thesis by (rule conjI)
qed

text \<open>
  C5 (as amended). In a state reached by the loop from the start of a thread, folding
  in a Complete event of name \<open>n\<close> and duration \<open>d\<close> sets the entry of \<open>n\<close> to its
  previous value (0 when there was none) plus the event's self-time, which is \<open>d\<close>
  minus the sum of the durations of the texts that this fold adds to \<open>seen\<close>. The
  self-time is not bounded below by 0: the entry does not decrease exactly when that
  sum is at most \<open>d\<close>.
\<close>

theorem self_time_contribution:
  assumes "thread_loop pre (init_thread_state, cats0) = Inr (st, cats)"
    and "process_event e (st, cats) = Inr (st', cats')"
    and "ph e = Some ''X''"
  shows "\<exists>n d. name e = Some n \<and> dur e = Some d \<and> seen st \<subseteq> seen st' \<and>
           map_of (event_times st') n =
             Some ((case map_of (event_times st) n of None \<Rightarrow> 0 | Some v \<Rightarrow> v) +
                   (d - sum text_dur (seen st' - seen st)))"
proof -
  have i: "thread_inv st"
    using thread_loop_inv [OF thread_inv_init assms(1)] by simp
  from process_event_complete [OF assms(3) assms(2)] obtain t d n sn self_time where
    f: "dur e = Some d" "name e = Some n" and
    ov: "overlap st t d = Inr (sn, self_time)" and
    st': "event_times st' =
            dict_set n ((case map_of (event_times st) n of None \<Rightarrow> 0 | Some v \<Rightarrow> v) + self_time)
              (event_times st)"
         "seen st' = sn"
    by force
  from overlap_result [OF i, of t d] ov have
    "seen st \<subseteq> sn" "self_time = d - sum text_dur (sn - seen st)"
    by auto
  with f st' show ?thesis by (simp add: map_of_dict_set)
qed

text \<open>
  A run of the theorem above: after two events C of duration 6 the entry of C is 12;
  a third event C (ts 0, dur 10) subtracts both and the entry becomes 10.
\<close>

theorem self_time_contribution_witness:
  "thread_loop [complete_event ''C'' ''action'' 1 6, complete_event ''C'' ''action'' 2 6]
     (init_thread_state, [])
   = Inr (\<lparr>total_time = 12,
           all_events = [complete_event ''C'' ''action'' 1 6, complete_event ''C'' ''action'' 2 6],
           event_times = [(''C'', 12)], seen = {}\<rparr>, [(''C'', ''action'')]) \<and>
   process_event (complete_event ''C'' ''action'' 0 10)
     (\<lparr>total_time = 12,
       all_events = [complete_event ''C'' ''action'' 1 6, complete_event ''C'' ''action'' 2 6],
       event_times = [(''C'', 12)], seen = {}\<rparr>, [(''C'', ''action'')])
   = Inr (\<lparr>total_time = 10,
           all_events = [complete_event ''C'' ''action'' 1 6, complete_event ''C'' ''action'' 2 6,
                         complete_event ''C'' ''action'' 0 10],
           event_times = [(''C'', 10)],
           seen = {str (complete_event ''C'' ''action'' 1 6),
                   str (complete_event ''C'' ''action'' 2 6)}\<rparr>,
          [(''C'', ''action'')]) \<and>
   (10 :: int) =
     12 + (10 - sum text_dur {str (complete_event ''C'' ''action'' 1 6),
                              str (complete_event ''C'' ''action'' 2 6)})"
proof -
  have h1: "thread_loop [complete_event ''C'' ''action'' 1 6, complete_event ''C'' ''action'' 2 6]
     (init_thread_state, [])
   = Inr (\<lparr>total_time = 12,
           all_events = [complete_event ''C'' ''action'' 1 6, complete_event ''C'' ''action'' 2 6],
           event_times = [(''C'', 12)], seen = {}\<rparr>, [(''C'', ''action'')])"
    by (simp add: run_defs)
  have h2: "process_event (complete_event ''C'' ''action'' 0 10)
     (\<lparr>total_time = 12,
       all_events = [complete_event ''C'' ''action'' 1 6, complete_event ''C'' ''action'' 2 6],
       event_times = [(''C'', 12)], seen = {}\<rparr>, [(''C'', ''action'')])
   = Inr (\<lparr>total_time = 10,
           all_events = [complete_event ''C'' ''action'' 1 6, complete_event ''C'' ''action'' 2 6,
                         complete_event ''C'' ''action'' 0 10],
           event_times = [(''C'', 10)],
           seen = {str (complete_event ''C'' ''action'' 1 6),
                   str (complete_event ''C'' ''action'' 2 6)}\<rparr>,
          [(''C'', ''action'')])"
    by (simp add: run_defs)
  have h3: "ph (complete_event ''C'' ''action'' 0 10) = Some ''X''"
    by (simp add: complete_event_def)
  from self_time_contribution [OF h1 h2 h3] show ?thesis
    using h1 h2 by (simp add: complete_event_def str_def dur_of_def)
qed

text \<open>
  The claim C5 as stated fails: on the same three events the entry of C is 12 after
  the second event and 10 after the third; with the third event named P, its
  self-time is -2.
\<close>

theorem self_time_monotone_counterexample:
  "get_times [(TidInt 1, [complete_event ''C'' ''action'' 1 6, complete_event ''C'' ''action'' 2 6])]
     = Inr ([(TidInt 1, [(''C'', 12)])], [(''C'', ''action'')]) \<and>
   get_times [(TidInt 1, [complete_event ''C'' ''action'' 1 6, complete_event ''C'' ''action'' 2 6,
                          complete_event ''C'' ''action'' 0 10])]
     = Inr ([(TidInt 1, [(''C'', 10)])], [(''C'', ''action'')]) \<and>
   get_times [(TidInt 1, [complete_event ''C'' ''action'' 1 6, complete_event ''C'' ''action'' 2 6,
                          complete_event ''P'' ''action'' 0 10])]
     = Inr ([(TidInt 1, [(''C'', 12), (''P'', - 2)])], [(''C'', ''action''), (''P'', ''action'')])"
  by (simp add: run_defs)

text \<open>
  C6. A Complete event that has \<open>ts\<close>, \<open>dur\<close> and \<open>cat\<close> but no \<open>name\<close>: \<open>get_times\<close>
  fails with Python's \<open>KeyError\<close> of the read \<open>event["name"]\<close>, not with
  \<open>IncorrectProfileFormatError\<close>; the later check \<open>"name" not in event\<close> is never
  reached.
\<close>

theorem missing_name_key_error:
  "get_times [(TidInt 1, [[Cat ''c'', Ph ''X'', Ts 0, Dur 5, Tid (TidInt 1)]])]
   = Inl (KeyError ''name'')"
  by (simp add: get_times_def init_thread_state_def process_event_def overlap_def)

text \<open>
  C7. A document whose only record has no \<open>tid\<close>: the body of \<open>get_data\<close> raises
  \<open>IncorrectProfileFormatError\<close>, and \<open>get_data\<close> itself raises
  \<open>UnableToUnzipFileError\<close> to its caller.
\<close>

theorem missing_tid_unable_to_unzip:
  "get_data_try
     (Some \<lparr>otherData = Some [(''build_id'', ''b'')],
            traceEvents = Some [[Name ''A'', Ph ''X'', Ts 0, Dur 5]]\<rparr>)
   = Inl IncorrectProfileFormatError \<and>
   get_data
     (Some \<lparr>otherData = Some [(''build_id'', ''b'')],
            traceEvents = Some [[Name ''A'', Ph ''X'', Ts 0, Dur 5]]\<rparr>)
   = Inl UnableToUnzipFileError"
  by (simp add: get_data_def get_data_try_def get_data_line_def)







text \<open>
  C10 (as amended). Whenever \<open>get_times\<close> returns, every name with an entry in the
  returned table has an entry in the returned category mapping, so the category lookup
  of \<open>create_event_objects\<close> does not fail on that result, and every Complete event of
  the input has a \<open>cat\<close> field. When the loops reach a Complete event that has \<open>ts\<close>
  and \<open>dur\<close> but no \<open>cat\<close>, \<open>get_times\<close> fails with the key-lookup error of the read
  \<open>event["cat"]\<close>; a Complete event without \<open>ts\<close> or without \<open>dur\<close> fails with
  \<open>IncorrectProfileFormatError\<close>, whether it has a \<open>cat\<close> or not.
\<close>

theorem categories_cover_event_times:
  "(get_times threads = Inr (tbl, cats) \<longrightarrow>
      (\<forall>item \<in> set tbl. \<forall>entry \<in> set (snd item). map_of cats (fst entry) \<noteq> None) \<and>
      (\<forall>k. create_event_objects (tbl, cats) \<noteq> Inl (KeyError k)) \<and>
      (\<forall>item \<in> set threads. \<forall>e \<in> set (snd item). ph e = Some ''X'' \<longrightarrow> cat e \<noteq> None)) \<and>
   (threads_loop before ([], []) = Inr (all, cats1) \<and>
    thread_loop pre (init_thread_state, cats1) = Inr s \<and>
    ph ev = Some ''X'' \<and> ts ev \<noteq> None \<and> dur ev \<noteq> None \<and> cat ev = None \<longrightarrow>
      get_times (before @ (line, pre @ ev # post) # rest) = Inl (KeyError ''cat'')) \<and>
   (threads_loop before ([], []) = Inr (all, cats1) \<and>
    thread_loop pre (init_thread_state, cats1) = Inr s \<and>
    ph ev = Some ''X'' \<and> (ts ev = None \<or> dur ev = None) \<longrightarrow>
      get_times (before @ (line, pre @ ev # post) # rest) = Inl IncorrectProfileFormatError)"
proof -
  have one:
    "(\<forall>item \<in> set tbl. \<forall>entry \<in> set (snd item). map_of cats (fst entry) \<noteq> None) \<and>
     (\<forall>k. create_event_objects (tbl, cats) \<noteq> Inl (KeyError k)) \<and>
     (\<forall>item \<in> set threads. \<forall>e \<in> set (snd item). ph e = Some ''X'' \<longrightarrow> cat e \<noteq> None)"
    if h: "get_times threads = Inr (tbl, cats)"
  proof -
    have l: "threads_loop threads ([], []) = Inr (tbl, cats)"
      using h by (simp add: get_times_def)
    have "\<forall>item \<in> set ([] :: all_threads). fst ` set (snd item) \<subseteq> fst ` set ([] :: categories)"
      by simp
    from threads_loop_names [OF l this] have
      a: "\<forall>item \<in> set tbl. fst ` set (snd item) \<subseteq> fst ` set cats" and
      b: "\<forall>item \<in> set threads. \<forall>e \<in> set (snd item). ph e = Some ''X'' \<longrightarrow> cat e \<noteq> None"
      by simp_all
    have c: "\<forall>item \<in> set tbl. \<forall>entry \<in> set (snd item). map_of cats (fst entry) \<noteq> None"
    proof (intro ballI)
      fix item entry assume "item \<in> set tbl" "entry \<in> set (snd item)"
      with a have "fst entry \<in> fst ` set cats" by auto
      then show "map_of cats (fst entry) \<noteq> None" by (simp add: map_of_eq_None_iff)
    qed
    have "\<forall>k. create_event_objects (tbl, cats) \<noteq> Inl (KeyError k)"
      using all_objects_no_key_error [OF c] by (auto simp: create_event_objects_def)
    with b c show ?thesis by simp
  qed
  have reach: "get_times (before @ (line, pre @ ev # post) # rest) = Inl err"
    if h: "threads_loop before ([], []) = Inr (all, cats1)"
          "thread_loop pre (init_thread_state, cats1) = Inr s"
          "process_event ev s = Inl err" for err
  proof -
    have "thread_loop (pre @ ev # post) (init_thread_state, cats1) = Inl err"
      using h(2,3) by (simp add: thread_loop_append)
    then show ?thesis
      using h(1) by (simp add: get_times_def threads_loop_append)
  qed
  have two: "get_times (before @ (line, pre @ ev # post) # rest) = Inl (KeyError ''cat'')"
    if h: "threads_loop before ([], []) = Inr (all, cats1)"
          "thread_loop pre (init_thread_state, cats1) = Inr s"
          "ph ev = Some ''X''" "ts ev \<noteq> None" "dur ev \<noteq> None" "cat ev = None"
  proof -
    have "process_event ev s = Inl (KeyError ''cat'')"
      using h(3-6) by (cases s) (auto simp: process_event_def)
    with h(1,2) show ?thesis by (rule reach)
  qed
  have three: "get_times (before @ (line, pre @ ev # post) # rest) = Inl IncorrectProfileFormatError"
    if h: "threads_loop before ([], []) = Inr (all, cats1)"
          "thread_loop pre (init_thread_state, cats1) = Inr s"
          "ph ev = Some ''X''" "ts ev = None \<or> dur ev = None"
  proof -
    have "process_event ev s = Inl IncorrectProfileFormatError"
      using h(3,4) by (rule process_event_no_ts_dur)
    with h(1,2) show ?thesis by (rule reach)
  qed
  show ?thesis using one two three by blast
qed

text \<open>
  A run of the theorem above: a child and its parent; the same thread with a Complete
  event without \<open>cat\<close> after the child; and with a Complete event without \<open>ts\<close>.
\<close>

theorem categories_cover_event_times_witness:
  "get_times
     [(TidInt 1, [complete_event ''C'' ''action'' 10 20, complete_event ''P'' ''build'' 0 100])]
   = Inr ([(TidInt 1, [(''C'', 20), (''P'', 80)])], [(''C'', ''action''), (''P'', ''build'')]) \<and>
   get_times
     ([] @ (TidInt 1, [complete_event ''C'' ''action'' 10 20] @
              [Name ''A'', Ph ''X'', Ts 0, Dur 5, Tid (TidInt 1)] # []) # [])
   = Inl (KeyError ''cat'') \<and>
   get_times
     ([] @ (TidInt 1, [complete_event ''C'' ''action'' 10 20] @
              [Name ''A'', Cat ''c'', Ph ''X'', Dur 5, Tid (TidInt 1)] # []) # [])
   = Inl IncorrectProfileFormatError"
proof -
  have h1: "get_times
     [(TidInt 1, [complete_event ''C'' ''action'' 10 20, complete_event ''P'' ''build'' 0 100])]
   = Inr ([(TidInt 1, [(''C'', 20), (''P'', 80)])], [(''C'', ''action''), (''P'', ''build'')])"
    by (simp add: run_defs)
  have h2: "threads_loop [] ([], []) = Inr ([] :: all_threads, [] :: categories)"
    by simp
  have h3: "thread_loop [complete_event ''C'' ''action'' 10 20] (init_thread_state, [])
     = Inr (\<lparr>total_time = 20, all_events = [complete_event ''C'' ''action'' 10 20],
             event_times = [(''C'', 20)], seen = {}\<rparr>, [(''C'', ''action'')])"
    by (simp add: run_defs)
  from categories_cover_event_times
         [of "[(TidInt 1, [complete_event ''C'' ''action'' 10 20,
                           complete_event ''P'' ''build'' 0 100])]"
             "[(TidInt 1, [(''C'', 20), (''P'', 80)])]" "[(''C'', ''action''), (''P'', ''build'')]"
             "[]" "[]" "[]" "[complete_event ''C'' ''action'' 10 20]"
             "(\<lparr>total_time = 20, all_events = [complete_event ''C'' ''action'' 10 20],
                event_times = [(''C'', 20)], seen = {}\<rparr>, [(''C'', ''action'')])"
             "[Name ''A'', Ph ''X'', Ts 0, Dur 5, Tid (TidInt 1)]"
             "TidInt 1" "[]" "[]"]
       categories_cover_event_times
         [of "[(TidInt 1, [complete_event ''C'' ''action'' 10 20,
                           complete_event ''P'' ''build'' 0 100])]"
             "[(TidInt 1, [(''C'', 20), (''P'', 80)])]" "[(''C'', ''action''), (''P'', ''build'')]"
             "[]" "[]" "[]" "[complete_event ''C'' ''action'' 10 20]"
             "(\<lparr>total_time = 20, all_events = [complete_event ''C'' ''action'' 10 20],
                event_times = [(''C'', 20)], seen = {}\<rparr>, [(''C'', ''action'')])"
             "[Name ''A'', Cat ''c'', Ph ''X'', Dur 5, Tid (TidInt 1)]"
             "TidInt 1" "[]" "[]"]
  show ?thesis using h1 h2 h3 by simp
qed

text \<open>
  The claim C10 as stated fails in its last part: a Complete event that lacks \<open>cat\<close>
  and also lacks \<open>ts\<close> makes \<open>get_times\<close> fail with \<open>IncorrectProfileFormatError\<close>,
  not with a key-lookup error.
\<close>

theorem missing_cat_and_ts_counterexample:
  "get_times [(TidInt 1, [[Name ''A'', Ph ''X'', Dur 5, Tid (TidInt 1)]])]
   = Inl IncorrectProfileFormatError"
  by (simp add: get_times_def init_thread_state_def process_event_def)

end
